theory Spec2Isabelle
  imports Complex_Main "HOL-Library.Monad_Syntax"
begin

section \<open>Python values and errors\<close>

text \<open>
  Python integers are unbounded, so they are \<^typ>\<open>int\<close>. An exception raised by the
  code is a value \<open>Inl e\<close> of the result type \<open>error + 'a\<close>; a normal return is \<open>Inr v\<close>.
\<close>

datatype error = ValueError string | ZeroDivisionError

text \<open>
  Python's \<^verbatim>\<open>divmod(a, b)\<close> on integers: floor division and the remainder with the sign
  of the divisor, which is what \<open>div\<close> and \<open>mod\<close> on \<^typ>\<open>int\<close> compute; a zero divisor
  raises \<^verbatim>\<open>ZeroDivisionError\<close>.
\<close>

definition py_divmod :: "int \<Rightarrow> int \<Rightarrow> error + (int \<times> int)" where
  "py_divmod a b = (if b = 0 then Inl ZeroDivisionError else Inr (a div b, a mod b))"

definition py_floordiv :: "int \<Rightarrow> int \<Rightarrow> error + int" where
  "py_floordiv a b = (if b = 0 then Inl ZeroDivisionError else Inr (a div b))"

section \<open>math/functions.py: the extended Euclidean algorithm\<close>

text \<open>The named tuple \<^verbatim>\<open>Euclidean = namedtuple("Euclidean", ["gcd", "x", "y"])\<close>.\<close>

datatype Euclidean = Euclidean (gcd_of: int) (x_of: int) (y_of: int)

text \<open>
  The \<^verbatim>\<open>while b:\<close> loop of \<^verbatim>\<open>extended_gcd\<close>, on the six variables
  \<^verbatim>\<open>a, b, x1, y1, x2, y2\<close>; it returns the values of \<^verbatim>\<open>a, x1, x2\<close> at exit.
\<close>

function extended_gcd_loop ::
  "int \<Rightarrow> int \<Rightarrow> int \<Rightarrow> int \<Rightarrow> int \<Rightarrow> int \<Rightarrow> error + (int \<times> int \<times> int)" where
  "extended_gcd_loop a b x1 y1 x2 y2 =
     (if b \<noteq> 0 then
        (case py_divmod a b of
           Inl e \<Rightarrow> Inl e
         | Inr (dv, md) \<Rightarrow> extended_gcd_loop b md y1 (x1 - dv * y1) y2 (x2 - dv * y2))
      else Inr (a, x1, x2))"
  by pat_completeness auto
termination
  by (relation "measure (\<lambda>(a, b, x1, y1, x2, y2). nat \<bar>b\<bar>)")
     (auto simp: py_divmod_def abs_mod_less split: if_splits)

definition extended_gcd :: "int \<Rightarrow> int \<Rightarrow> error + Euclidean" where
  "extended_gcd a b =
     (case extended_gcd_loop a b 1 0 0 1 of
        Inl e \<Rightarrow> Inl e
      | Inr (a', x1, x2) \<Rightarrow>
          (let sign = (if a' > 0 then 1 else - 1)
           in Inr (Euclidean (sign * a') (sign * x1) (sign * x2))))"


section \<open>math/functions.py: Dirichlet convolution\<close>

text \<open>
  An arithmetic function is a function on the positive integers; its argument is a
  \<^typ>\<open>nat\<close>. Its values are exact numbers (Python \<^verbatim>\<open>int\<close> or \<^verbatim>\<open>Fraction\<close>), so
  convolution and its partial applications, which only add and multiply, are stated
  over a commutative ring. \<^verbatim>\<open>dirichlet_inverse\<close> divides with Python's \<^verbatim>\<open>/\<close>, whose
  result depends on the type of its operands; it is modelled for functions with
  \<^verbatim>\<open>Fraction\<close> values, the type \<^typ>\<open>rat\<close> (see there).

  The library functions of \<^verbatim>\<open>sympy.ntheory\<close> that the code calls are modelled by what
  they compute. \<^verbatim>\<open>divisors(n)\<close> is the sorted list of the positive divisors of \<open>n\<close>, and
  the empty list for \<open>n = 0\<close>; \<^verbatim>\<open>divisors(n, True)\<close> generates the same divisors, in an
  unspecified order, which a sum over a commutative ring does not see.
\<close>

definition divisors :: "nat \<Rightarrow> nat list" where
  "divisors n = filter (\<lambda>d. d dvd n) [1..<Suc n]"

text \<open>
  \<^verbatim>\<open>totient(n)\<close> is Euler's function: the number of \<open>k\<close> in \<open>1..n\<close> coprime to \<open>n\<close>.
\<close>

definition totient :: "nat \<Rightarrow> nat" where
  "totient n = length (filter (\<lambda>k. gcd n k = 1) [1..<Suc n])"

text \<open>
  \<^verbatim>\<open>mobius(n)\<close> is computed by sympy from the prime factorisation of \<open>n\<close>: \<open>0\<close> when some
  prime has an exponent above one, and \<open>(-1) ^ k\<close> for a product of \<open>k\<close> distinct primes.
  (sympy rejects \<open>n \<le> 0\<close>; the code below calls it on quotients \<open>n div d\<close> of a
  positive \<open>n\<close> by a divisor only.)
\<close>

definition is_prime :: "nat \<Rightarrow> bool" where
  "is_prime p = (1 < p \<and> (\<forall>d \<in> {2..<p}. \<not> d dvd p))"

definition prime_divisors :: "nat \<Rightarrow> nat list" where
  "prime_divisors n = filter is_prime (divisors n)"

definition mobius :: "nat \<Rightarrow> int" where
  "mobius n =
     (if \<exists>p \<in> set (prime_divisors n). p * p dvd n then 0
      else (- 1) ^ length (prime_divisors n))"

text \<open>
  \<^verbatim>\<open>convolution(f, g)\<close> returns the closure \<^verbatim>\<open>func\<close>; \<open>convolution f g\<close> is that closure,
  and \<open>convolution f g n\<close> its value \<^verbatim>\<open>sum(f(d)*g(n//d) for d in divisors(n, True))\<close>.
\<close>

definition convolution :: "(nat \<Rightarrow> 'a::comm_ring_1) \<Rightarrow> (nat \<Rightarrow> 'a) \<Rightarrow> nat \<Rightarrow> 'a" where
  "convolution f g n = sum_list (map (\<lambda>d. f d * g (n div d)) (divisors n))"

text \<open>The three partial applications \<^verbatim>\<open>partial(convolution, g=...)\<close>.\<close>

definition divisor_sum :: "(nat \<Rightarrow> 'a::comm_ring_1) \<Rightarrow> nat \<Rightarrow> 'a" where
  "divisor_sum f = convolution f (\<lambda>x. 1)"

definition mobius_inverse :: "(nat \<Rightarrow> 'a::comm_ring_1) \<Rightarrow> nat \<Rightarrow> 'a" where
  "mobius_inverse f = convolution f (\<lambda>k. of_int (mobius k))"

definition gcd_composition :: "(nat \<Rightarrow> 'a::comm_ring_1) \<Rightarrow> nat \<Rightarrow> 'a" where
  "gcd_composition f = convolution f (\<lambda>k. of_nat (totient k))"

text \<open>
  The inner function \<^verbatim>\<open>g\<close> of \<^verbatim>\<open>dirichlet_inverse\<close>. \<^verbatim>\<open>divisors(n)[:-1]\<close> drops the last
  (largest) divisor. The \<^verbatim>\<open>lru_cache\<close> stores values of a pure function and does not
  change them.

  The values of \<open>f\<close> are Python \<^verbatim>\<open>Fraction\<close>s, the type \<^typ>\<open>rat\<close>. On them \<^verbatim>\<open>x / f(1)\<close> is
  the exact quotient (also when \<^verbatim>\<open>x\<close> is the integer \<^verbatim>\<open>1\<close> of the empty case), and the
  sum, the products and the negation are exact, so \<^verbatim>\<open>g\<close> again has \<^verbatim>\<open>Fraction\<close> values. The
  divisor \<^verbatim>\<open>f(1)\<close> is not zero when \<^verbatim>\<open>g\<close> exists, by the guard of \<^verbatim>\<open>dirichlet_inverse\<close>.
  On \<^verbatim>\<open>int\<close> or \<^verbatim>\<open>float\<close> operands Python's \<^verbatim>\<open>/\<close> is floating-point division, which
  rounds: a function with such values is not an input of this definition, and nothing is
  stated about it.
\<close>

function dirichlet_inverse_g :: "(nat \<Rightarrow> rat) \<Rightarrow> nat \<Rightarrow> rat" where
  "dirichlet_inverse_g f n =
     (let divs = butlast (divisors n);
          x = (if divs \<noteq> []
               then - sum_list (map (\<lambda>d. f (n div d) * dirichlet_inverse_g f d) divs)
               else 1)
      in x / f 1)"
  by pat_completeness auto
termination
proof (relation "measure (\<lambda>(f, n). n)")
  show "wf (measure (\<lambda>(f :: nat \<Rightarrow> rat, n). n))" by simp
next
  fix f :: "nat \<Rightarrow> rat" and n :: nat and divs :: "nat list" and d :: nat
  assume divs: "divs = butlast (divisors n)" and d: "d \<in> set divs"
  have "d < n"
  proof (cases n)
    case 0
    with divs d show ?thesis by (simp add: divisors_def)
  next
    case (Suc m)
    have "divisors n = filter (\<lambda>d. d dvd n) [1..<n] @ [n]"
      using Suc by (simp add: divisors_def)
    then have "divs = filter (\<lambda>d. d dvd n) [1..<n]"
      using divs by simp
    with d show ?thesis by simp
  qed
  then show "((f, d), (f, n)) \<in> measure (\<lambda>(f :: nat \<Rightarrow> rat, n). n)" by simp
qed

declare dirichlet_inverse_g.simps [simp del]

text \<open>
  \<^verbatim>\<open>dirichlet_inverse(f)\<close>: the guard \<^verbatim>\<open>if not f(1): raise ValueError(...)\<close>, then the
  closure \<^verbatim>\<open>g\<close> is returned. \<^verbatim>\<open>not f(1)\<close> holds exactly when the number \<^verbatim>\<open>f(1)\<close> is zero.
\<close>

definition dirichlet_inverse :: "(nat \<Rightarrow> rat) \<Rightarrow> error + (nat \<Rightarrow> rat)" where
  "dirichlet_inverse f =
     (if f 1 = 0 then Inl (ValueError ''Function 'f' is not invertible, as f(1) == 0.'')
      else Inr (dirichlet_inverse_g f))"


section \<open>math/sequences.py: Stern-Brocot search and Farey sequences\<close>

text \<open>A fraction is a pair \<open>(numerator, denominator)\<close> of integers, as the tuples of the code.\<close>

type_synonym fract = "int \<times> int"

definition fract_comp :: "fract \<Rightarrow> fract \<Rightarrow> int" where
  "fract_comp r s = fst r * snd s - snd r * fst s"

text \<open>
  \<^verbatim>\<open>_impl_fract_ceil\<close> recurses without a bound of its own, so a call that does not return
  is the value \<open>None\<close>.
\<close>

partial_function (option) impl_fract_ceil ::
  "fract \<Rightarrow> fract \<Rightarrow> fract \<Rightarrow> int \<Rightarrow> fract option" where
  "impl_fract_ceil first last' fract n =
     (if fract = first \<or> fract = last' then Some fract
      else
        (let mediant = (fst first + fst last', snd first + snd last')
         in if snd mediant > n then Some last'
            else if fract_comp fract mediant < 0 then impl_fract_ceil first mediant fract n
            else impl_fract_ceil mediant last' fract n))"

declare impl_fract_ceil.simps [code]

text \<open>
  The same function with a bound on the number of nested calls (the depth of the call
  stack): with \<open>k\<close> frames left, a call that needs a deeper stack gives \<open>None\<close>.
\<close>

fun impl_fract_ceil_depth ::
  "nat \<Rightarrow> fract \<Rightarrow> fract \<Rightarrow> fract \<Rightarrow> int \<Rightarrow> fract option" where
  "impl_fract_ceil_depth 0 first last' fract n = None"
| "impl_fract_ceil_depth (Suc k) first last' fract n =
     (if fract = first \<or> fract = last' then Some fract
      else
        (let mediant = (fst first + fst last', snd first + snd last')
         in if snd mediant > n then Some last'
            else if fract_comp fract mediant < 0 then impl_fract_ceil_depth k first mediant fract n
            else impl_fract_ceil_depth k mediant last' fract n))"

definition fract_ceil :: "fract \<Rightarrow> int \<Rightarrow> fract option" where
  "fract_ceil fract n = impl_fract_ceil (0, 1) (1, 1) fract n"

text \<open>
  \<^verbatim>\<open>Fraction(numerator, denominator)\<close> of the standard library on two integers: a zero
  denominator raises, otherwise the pair is divided by its gcd, with the sign moved to
  the numerator.
\<close>

definition Fraction :: "int \<Rightarrow> int \<Rightarrow> error + fract" where
  "Fraction nu de =
     (if de = 0 then Inl ZeroDivisionError
      else (let g = (if de < 0 then - gcd nu de else gcd nu de)
            in Inr (nu div g, de div g)))"

text \<open>
  The generator \<^verbatim>\<open>farey\<close>. Its result is the list of the pairs it yields, in order, with
  the exception that ends it, if any (\<open>None\<close> for a normal end). \<open>ys\<close> holds the pairs
  yielded so far. The \<^verbatim>\<open>while\<close> loop has no bound of its own: a run that never ends is
  the value \<open>None\<close> of the outer option.
\<close>

partial_function (option) farey_loop ::
  "int \<Rightarrow> fract \<Rightarrow> int \<Rightarrow> int \<Rightarrow> int \<Rightarrow> int \<Rightarrow> fract list \<Rightarrow> (fract list \<times> error option) option" where
  "farey_loop n last' a b c d ys =
     (if fract_comp (a, b) last' < 0 then
        (case py_floordiv (n + b) d of
           Inl e \<Rightarrow> Some (ys @ [(a, b)], Some e)
         | Inr r \<Rightarrow> farey_loop n last' c d (r * c - a) (r * d - b) (ys @ [(a, b)]))
      else Some (if (a, b) = last' then ys @ [last'] else ys, None))"

declare farey_loop.simps [code]

definition farey :: "int \<Rightarrow> fract \<Rightarrow> fract \<Rightarrow> (fract list \<times> error option) option" where
  "farey n first0 last0 =
     (case Fraction (fst first0) (snd first0) of
        Inl e \<Rightarrow> Some ([], Some e)
      | Inr first \<Rightarrow>
     (case Fraction (fst last0) (snd last0) of
        Inl e \<Rightarrow> Some ([], Some e)
      | Inr last' \<Rightarrow>
     (case (if snd first \<le> n then Some first else fract_ceil first n) of
        None \<Rightarrow> None
      | Some (a, b) \<Rightarrow>
     (case extended_gcd b (- a) of
        Inl e \<Rightarrow> Some ([], Some e)
      | Inr eu \<Rightarrow>
     (case py_floordiv (n - y_of eu) b of
        Inl e \<Rightarrow> Some ([], Some e)
      | Inr r \<Rightarrow>
          (let c = r * a + x_of eu; d = r * b + y_of eu
           in farey_loop n last' a b c d []))))))"


section \<open>Properties of the extended Euclidean algorithm\<close>

text \<open>
  The loop keeps \<open>a\<close> and \<open>b\<close> as integer combinations of the two inputs \<open>a0\<close> and
  \<open>b0\<close>, with coefficients \<open>(x1, x2)\<close> and \<open>(y1, y2)\<close>, and keeps their gcd.
\<close>

lemma extended_gcd_loop_invariant:
  "extended_gcd_loop a b x1 y1 x2 y2 = Inr (a', u, v) \<Longrightarrow>
   a = a0 * x1 + b0 * x2 \<Longrightarrow> b = a0 * y1 + b0 * y2 \<Longrightarrow>
   a' = a0 * u + b0 * v \<and> \<bar>a'\<bar> = gcd a b"
proof (induction a b x1 y1 x2 y2 rule: extended_gcd_loop.induct)
  case (1 a b x1 y1 x2 y2)
  show ?case
  proof (cases "b = 0")
    case True
    with "1.prems" show ?thesis by auto
  next
    case False
    have dm: "py_divmod a b = Inr (a div b, a mod b)"
      using False by (simp add: py_divmod_def)
    have step: "extended_gcd_loop b (a mod b) y1 (x1 - a div b * y1) y2 (x2 - a div b * y2)
                  = Inr (a', u, v)"
      using "1.prems"(1) False dm by simp
    have m: "a mod b = a0 * (x1 - a div b * y1) + b0 * (x2 - a div b * y2)"
    proof -
      have "a mod b = a - a div b * b" by (simp add: minus_div_mult_eq_mod)
      also have "\<dots> = a0 * (x1 - a div b * y1) + b0 * (x2 - a div b * y2)"
        using "1.prems"(2,3) by (simp add: algebra_simps)
      finally show ?thesis .
    qed
    have "a' = a0 * u + b0 * v \<and> \<bar>a'\<bar> = gcd b (a mod b)"
      by (rule "1.IH"[OF False dm refl step "1.prems"(3) m])
    then show ?thesis by (metis gcd_red_int)
  qed
qed

text \<open>The loop always ends normally: the divisor passed to \<open>py_divmod\<close> is never zero.\<close>

lemma extended_gcd_loop_returns: "\<exists>r. extended_gcd_loop a b x1 y1 x2 y2 = Inr r"
proof (induction a b x1 y1 x2 y2 rule: extended_gcd_loop.induct)
  case (1 a b x1 y1 x2 y2)
  show ?case
  proof (cases "b = 0")
    case True
    then show ?thesis by simp
  next
    case False
    have dm: "py_divmod a b = Inr (a div b, a mod b)"
      using False by (simp add: py_divmod_def)
    from "1.IH"[OF False dm refl] show ?thesis using False dm by simp
  qed
qed

lemma extended_gcd_bezout:
  "\<exists>d x y. extended_gcd a b = Inr (Euclidean d x y) \<and> a * x + b * y = d \<and> d = gcd a b"
proof -
  obtain a' u v where loop: "extended_gcd_loop a b 1 0 0 1 = Inr (a', u, v)"
    using extended_gcd_loop_returns[of a b 1 0 0 1] by (metis prod_cases3)
  have inv: "a' = a * u + b * v \<and> \<bar>a'\<bar> = gcd a b"
    by (rule extended_gcd_loop_invariant[OF loop]) simp_all
  show ?thesis
  proof (cases "a' > 0")
    case True
    with loop inv show ?thesis by (simp add: extended_gcd_def)
  next
    case False
    then have "- a' = gcd a b" using inv by linarith
    with False loop inv show ?thesis by (simp add: extended_gcd_def algebra_simps)
  qed
qed

text \<open>
  Claim C1. For all integers \<open>a\<close>, \<open>b\<close> that are not both zero, \<open>extended_gcd a b\<close> returns
  a triple \<open>(d, x, y)\<close> with \<open>a * x + b * y = d\<close>, where \<open>d\<close> is the non-negative gcd of
  \<open>\<bar>a\<bar>\<close> and \<open>\<bar>b\<bar>\<close>, whatever the signs of \<open>a\<close> and \<open>b\<close>.
\<close>

theorem extended_gcd_correct:
  assumes "a \<noteq> 0 \<or> b \<noteq> 0"
  shows "\<exists>d x y. extended_gcd a b = Inr (Euclidean d x y) \<and>
           a * x + b * y = d \<and> d = gcd \<bar>a\<bar> \<bar>b\<bar> \<and> 0 \<le> d"
  using extended_gcd_bezout[of a b] by auto

theorem extended_gcd_correct_witness:
  "\<not> ((- 240 :: int) = 0 \<and> (46 :: int) = 0) \<and>
   (\<exists>d x y. extended_gcd (- 240) 46 = Inr (Euclidean d x y) \<and>
      (- 240) * x + 46 * y = d \<and> d = gcd \<bar>- 240 :: int\<bar> \<bar>46\<bar> \<and> 0 \<le> d)"
  using extended_gcd_correct[of "- 240" 46] by simp

text \<open>
  Claim C7 says that \<open>extended_gcd\<close> raises an error when both arguments are zero. The
  code has no such check: the loop is skipped, the sign is taken as \<open>- 1\<close>, and the
  triple \<open>(0, - 1, 0)\<close> is returned.
\<close>

theorem extended_gcd_zero_zero_no_error: "\<not> isl (extended_gcd 0 0)"
  by (simp add: extended_gcd_def)

text \<open>
  Claim C7, amended. \<open>extended_gcd 0 0\<close> does not raise; it returns the triple
  \<open>(0, - 1, 0)\<close>.
\<close>

theorem extended_gcd_zero_zero: "extended_gcd 0 0 = Inr (Euclidean 0 (- 1) 0)"
  by (simp add: extended_gcd_def)

section \<open>Properties of the Dirichlet inverse\<close>

text \<open>
  Claim C8. \<open>dirichlet_inverse f\<close> raises its error (the \<^verbatim>\<open>ValueError\<close> "not invertible")
  exactly when \<open>f 1 = 0\<close>; then the result is the error alone. When \<open>f 1 \<noteq> 0\<close> the call
  returns the function \<open>g\<close>.
\<close>

theorem dirichlet_inverse_error_iff:
  "(isl (dirichlet_inverse f) \<longleftrightarrow> f 1 = 0) \<and>
   (f 1 = 0 \<longrightarrow>
      dirichlet_inverse f = Inl (ValueError ''Function 'f' is not invertible, as f(1) == 0.'')) \<and>
   (f 1 \<noteq> 0 \<longrightarrow> dirichlet_inverse f = Inr (dirichlet_inverse_g f))"
  by (simp add: dirichlet_inverse_def)

theorem dirichlet_inverse_error_iff_witness:
  "(\<lambda>n. 0 :: rat) 1 = 0 \<and>
   dirichlet_inverse (\<lambda>n. 0 :: rat)
     = Inl (ValueError ''Function 'f' is not invertible, as f(1) == 0.'') \<and>
   (\<lambda>n. 1 :: rat) 1 \<noteq> 0 \<and>
   dirichlet_inverse (\<lambda>n. 1 :: rat) = Inr (dirichlet_inverse_g (\<lambda>n. 1))"
  using dirichlet_inverse_error_iff[of "\<lambda>n. 0 :: rat"]
        dirichlet_inverse_error_iff[of "\<lambda>n. 1 :: rat"]
  by simp


section \<open>Properties of Dirichlet convolution\<close>

subsection \<open>Divisors and commutativity\<close>

lemma set_divisors: "0 < n \<Longrightarrow> set (divisors n) = {d. d dvd n}"
proof -
  assume n: "0 < n"
  show ?thesis
  proof (rule set_eqI)
    fix d
    have "d dvd n \<Longrightarrow> 1 \<le> d \<and> d \<le> n"
      using n dvd_imp_le[of d n] dvd_pos_nat[of n d] by auto
    then show "d \<in> set (divisors n) \<longleftrightarrow> d \<in> {d. d dvd n}"
      unfolding divisors_def by (auto simp: less_Suc_eq_le)
  qed
qed

lemma distinct_divisors: "distinct (divisors n)"
  by (simp add: divisors_def)

lemma finite_divisors_set: "0 < (n::nat) \<Longrightarrow> finite {d. d dvd n}"
  using set_divisors[of n] by (metis List.finite_set)

lemma div_divisor_dvd: "d dvd n \<Longrightarrow> n div d dvd (n::nat)"
  by (metis dvd_mult_div_cancel dvd_triv_right)

lemma div_div_divisor: "0 < n \<Longrightarrow> d dvd n \<Longrightarrow> n div (n div d) = (d::nat)"
  by (metis dvd_mult_div_cancel nonzero_mult_div_cancel_right mult_eq_0_iff not_gr_zero)

lemma convolution_sum:
  "0 < n \<Longrightarrow> convolution f g n = (\<Sum>d | d dvd n. f d * g (n div d))"
  unfolding convolution_def
  by (simp add: sum_list_distinct_conv_sum_set distinct_divisors set_divisors)

lemma sum_divisors_flip:
  fixes h :: "nat \<Rightarrow> 'a::comm_monoid_add" and n :: nat
  assumes "0 < n"
  shows "(\<Sum>d | d dvd n. h (n div d)) = (\<Sum>d | d dvd n. h d)"
  by (rule sum.reindex_bij_witness[of _ "\<lambda>d. n div d" "\<lambda>d. n div d"])
     (use assms in \<open>auto simp: div_divisor_dvd div_div_divisor\<close>)

lemma convolution_commute_pos:
  assumes "0 < n"
  shows "convolution f g n = convolution g f n"
proof -
  have "convolution f g n = (\<Sum>d | d dvd n. f d * g (n div d))"
    by (rule convolution_sum[OF assms])
  also have "\<dots> = (\<Sum>d | d dvd n. f (n div d) * g (n div (n div d)))"
    by (rule sum_divisors_flip[OF assms, symmetric])
  also have "\<dots> = (\<Sum>d | d dvd n. g d * f (n div d))"
    by (rule sum.cong) (use assms in \<open>auto simp: mult.commute div_div_divisor\<close>)
  also have "\<dots> = convolution g f n"
    by (rule convolution_sum[OF assms, symmetric])
  finally show ?thesis .
qed

text \<open>
  Claim C10. Dirichlet convolution is commutative in its two function arguments: for all
  arithmetic functions \<open>f\<close>, \<open>g\<close> and every \<open>n \<ge> 1\<close>,
  \<open>convolution f g n = convolution g f n\<close>.
\<close>

theorem convolution_commutative:
  assumes "1 \<le> n"
  shows "convolution f g n = convolution g f n"
  using assms convolution_commute_pos[of n f g] by simp

theorem convolution_commutative_witness:
  "(1::nat) \<le> 6 \<and>
   convolution (\<lambda>n. int n) (\<lambda>n. int n * int n) 6
     = convolution (\<lambda>n. int n * int n) (\<lambda>n. int n) 6"
  using convolution_commutative[of 6 "\<lambda>n. int n" "\<lambda>n. int n * int n"] by simp

subsection \<open>The sum over gcds\<close>

lemma totient_card: "totient n = card {k. 1 \<le> k \<and> k \<le> n \<and> gcd n k = 1}"
proof -
  have "{k. gcd n k = 1} \<inter> set [1..<Suc n] = {k. 1 \<le> k \<and> k \<le> n \<and> gcd n k = 1}"
    by (auto simp: less_Suc_eq_le)
  then show ?thesis
    unfolding totient_def by (simp add: distinct_length_filter)
qed

lemma gcd_class_card:
  fixes n d :: nat
  assumes n: "0 < n" and d: "d dvd n"
  shows "card {k. 1 \<le> k \<and> k \<le> n \<and> gcd n k = d} = totient (n div d)"
proof -
  let ?m = "n div d"
  let ?A = "{j. 1 \<le> j \<and> j \<le> ?m \<and> gcd ?m j = 1}"
  let ?B = "{k. 1 \<le> k \<and> k \<le> n \<and> gcd n k = d}"
  have dpos: "0 < d" using n d by (rule dvd_pos_nat)
  have nm: "n = d * ?m" using d by simp
  have img: "(\<lambda>j. d * j) ` ?A = ?B"
  proof (rule set_eqI, rule iffI)
    fix k assume "k \<in> (\<lambda>j. d * j) ` ?A"
    then obtain j where j: "1 \<le> j" "j \<le> ?m" "gcd ?m j = 1" and k: "k = d * j" by auto
    have "gcd n k = d * gcd ?m j"
      using nm k by (metis gcd_mult_distrib_nat)
    moreover have "k \<le> n" using j(2) nm k by (metis mult_le_mono2)
    moreover have "1 \<le> k" using j(1) dpos k by simp
    ultimately show "k \<in> ?B" using j(3) by simp
  next
    fix k assume "k \<in> ?B"
    then have k: "1 \<le> k" "k \<le> n" "gcd n k = d" by auto
    have dk: "d dvd k" using k(3) by (metis gcd_dvd2)
    let ?j = "k div d"
    have kj: "k = d * ?j" using dk by simp
    have "coprime (n div gcd n k) (k div gcd n k)"
      using n by (intro div_gcd_coprime) simp
    then have "gcd ?m ?j = 1" using k(3) by (simp add: coprime_iff_gcd_eq_1)
    moreover have "1 \<le> ?j"
    proof (rule ccontr)
      assume "\<not> 1 \<le> ?j"
      then have "?j = 0" by simp
      then have "k = 0" using kj by (metis mult_0_right)
      then show False using k(1) by simp
    qed
    moreover have "?j \<le> ?m" using k(2) by (rule div_le_mono)
    ultimately have jA: "?j \<in> ?A" by simp
    show "k \<in> (\<lambda>j. d * j) ` ?A" by (rule image_eqI[where x = "?j"]) (rule kj, rule jA)
  qed
  have "inj_on (\<lambda>j. d * j) ?A" using dpos by (simp add: inj_on_def)
  then have "card ((\<lambda>j. d * j) ` ?A) = card ?A" by (rule card_image)
  then show ?thesis using img by (simp add: totient_card)
qed

lemma gcd_sum_by_divisor:
  fixes f :: "nat \<Rightarrow> 'a::comm_ring_1"
  assumes n: "0 < n"
  shows "(\<Sum>k = 1..n. f (gcd n k)) = (\<Sum>d | d dvd n. f d * of_nat (totient (n div d)))"
proof -
  have fin: "finite {d. d dvd n}" using n by (rule finite_divisors_set)
  have "(\<Sum>k = 1..n. f (gcd n k)) = (\<Sum>d | d dvd n. \<Sum>k \<in> {k \<in> {1..n}. gcd n k = d}. f (gcd n k))"
    by (rule sum.group[symmetric]) (use fin in auto)
  also have "\<dots> = (\<Sum>d | d dvd n. f d * of_nat (totient (n div d)))"
  proof (rule sum.cong[OF refl])
    fix d assume "d \<in> {d. d dvd n}"
    then have d: "d dvd n" by simp
    have eq: "{k \<in> {1..n}. gcd n k = d} = {k. 1 \<le> k \<and> k \<le> n \<and> gcd n k = d}" by auto
    have "(\<Sum>k \<in> {k \<in> {1..n}. gcd n k = d}. f (gcd n k)) = (\<Sum>k \<in> {k \<in> {1..n}. gcd n k = d}. f d)"
      by (rule sum.cong) auto
    also have "\<dots> = of_nat (card {k \<in> {1..n}. gcd n k = d}) * f d" by simp
    also have "\<dots> = f d * of_nat (totient (n div d))"
      using gcd_class_card[OF n d] by (simp add: eq mult.commute)
    finally show "(\<Sum>k \<in> {k \<in> {1..n}. gcd n k = d}. f (gcd n k)) = f d * of_nat (totient (n div d))" .
  qed
  finally show ?thesis .
qed

text \<open>
  Claim C6. For every arithmetic function \<open>f\<close> and every \<open>n \<ge> 1\<close>,
  \<open>gcd_composition f n\<close>, which the code defines as the convolution of \<open>f\<close> with the
  totient, is the sum of \<open>f (gcd n k)\<close> for \<open>k\<close> from \<open>1\<close> to \<open>n\<close>
  (\<^verbatim>\<open>sum(f(gcd(n, k)) for k in range(1, n+1))\<close>).
\<close>

theorem gcd_composition_gcd_sum:
  fixes f :: "nat \<Rightarrow> 'a::comm_ring_1"
  assumes "1 \<le> n"
  shows "gcd_composition f n = sum_list (map (\<lambda>k. f (gcd n k)) [1..<Suc n])"
proof -
  have n: "0 < n" using assms by simp
  have "sum_list (map (\<lambda>k. f (gcd n k)) [1..<Suc n]) = (\<Sum>k = 1..n. f (gcd n k))"
    by (simp only: interv_sum_list_conv_sum_set_nat set_upt atLeastLessThanSuc_atLeastAtMost)
  also have "\<dots> = (\<Sum>d | d dvd n. f d * of_nat (totient (n div d)))"
    by (rule gcd_sum_by_divisor[OF n])
  also have "\<dots> = gcd_composition f n"
    unfolding gcd_composition_def by (rule convolution_sum[OF n, symmetric])
  finally show ?thesis by simp
qed

theorem gcd_composition_gcd_sum_witness:
  "(1::nat) \<le> 6 \<and>
   gcd_composition (\<lambda>n. int n) 6 = sum_list (map (\<lambda>k. int (gcd 6 k)) [1..<Suc 6])"
  using gcd_composition_gcd_sum[of 6 "\<lambda>n. int n"] by simp

subsection \<open>The Moebius function and Moebius inversion\<close>

lemma is_prime_gt_1: "is_prime p \<Longrightarrow> 1 < p"
  by (simp add: is_prime_def)

lemma is_prime_divisor: 
  assumes "is_prime p" and "c dvd p" 
  shows "c = 1 \<or> c = p"
proof -
  have p: "1 < p" and nd: "\<And>d. 2 \<le> d \<Longrightarrow> d < p \<Longrightarrow> \<not> d dvd p"
    using assms(1) by (auto simp: is_prime_def)
  have "c \<le> p" using assms(2) p by (intro dvd_imp_le) auto
  moreover have "c \<noteq> 0" using assms(2) p by (intro notI) simp
  ultimately show ?thesis using nd[of c] assms(2) by (cases "c = 1"; cases "c = p") auto
qed

lemma is_prime_coprime:
  assumes "is_prime p" and "\<not> p dvd a"
  shows "coprime p a"
proof (rule coprimeI)
  fix c assume "c dvd p" and ca: "c dvd a"
  then have "c = 1 \<or> c = p" using assms(1) by (intro is_prime_divisor)
  with ca assms(2) show "is_unit c" by auto
qed

lemma is_prime_dvd_mult:
  assumes "is_prime p" and "p dvd a * b"
  shows "p dvd a \<or> p dvd b"
proof (cases "p dvd b")
  case False
  then have "coprime p b" using assms(1) by (intro is_prime_coprime)
  then show ?thesis using assms(2) by (simp add: coprime_dvd_mult_left_iff)
qed simp

lemma is_prime_dvd_prime:
  assumes "is_prime p" and "is_prime q" and "q dvd p"
  shows "q = p"
  using is_prime_divisor[OF assms(1,3)] is_prime_gt_1[OF assms(2)] by auto

lemma prime_divisor_exists: "1 < n \<Longrightarrow> \<exists>p. is_prime p \<and> p dvd n"
proof (induction n rule: less_induct)
  case (less n)
  show ?case
  proof (cases "is_prime n")
    case True
    then show ?thesis by auto
  next
    case False
    then obtain d where d: "2 \<le> d" "d < n" "d dvd n"
      using less.prems by (auto simp: is_prime_def)
    then obtain p where "is_prime p" "p dvd d" using less.IH[of d] by auto
    then show ?thesis using d(3) by (meson dvd_trans)
  qed
qed

lemma set_prime_divisors: "0 < n \<Longrightarrow> set (prime_divisors n) = {p. is_prime p \<and> p dvd n}"
  by (auto simp: prime_divisors_def set_divisors)

lemma length_prime_divisors: "0 < n \<Longrightarrow> length (prime_divisors n) = card {p. is_prime p \<and> p dvd n}"
  using set_prime_divisors[of n] distinct_card[of "prime_divisors n"]
  by (simp add: prime_divisors_def distinct_divisors)

lemma mobius_alt:
  assumes "0 < n"
  shows "mobius n = (if \<exists>p. is_prime p \<and> p * p dvd n then 0 else (- 1) ^ card {p. is_prime p \<and> p dvd n})"
proof -
  have "(\<exists>p \<in> set (prime_divisors n). p * p dvd n) \<longleftrightarrow> (\<exists>p. is_prime p \<and> p * p dvd n)"
    using assms by (auto simp: set_prime_divisors dest: dvd_mult_left)
  then show ?thesis
    unfolding mobius_def using assms by (simp add: length_prime_divisors)
qed

lemma not_is_prime_1: "\<not> is_prime (Suc 0)"
  by (simp add: is_prime_def)

lemma mobius_1: "mobius (Suc 0) = 1"
proof -
  have "{p. is_prime p \<and> p dvd Suc 0} = {}" using not_is_prime_1 by auto
  moreover have "\<not> (\<exists>p. is_prime p \<and> p * p dvd Suc 0)" using not_is_prime_1 by auto
  moreover have "mobius (Suc 0) = (if \<exists>p. is_prime p \<and> p * p dvd Suc 0 then 0 
      else (- 1) ^ card {p. is_prime p \<and> p dvd Suc 0})"
    by (rule mobius_alt) simp
  ultimately show ?thesis by (simp only: if_False card.empty power_0)
qed

lemma mobius_square:
  assumes "is_prime p" and "p * p dvd e" and "0 < e"
  shows "mobius e = 0"
  using assms mobius_alt[of e] by auto

lemma mobius_prime_mult:
  assumes p: "is_prime p" and d: "0 < d" and nd: "\<not> p dvd d"
  shows "mobius (p * d) = - mobius d"
proof -
  have ppos: "0 < p" using is_prime_gt_1[OF p] by simp
  have pd: "0 < p * d" using ppos d by simp
  have sq: "(\<exists>q. is_prime q \<and> q * q dvd p * d) \<longleftrightarrow> (\<exists>q. is_prime q \<and> q * q dvd d)"
  proof
    assume "\<exists>q. is_prime q \<and> q * q dvd p * d"
    then obtain q where q: "is_prime q" "q * q dvd p * d" by auto
    have "q \<noteq> p"
    proof
      assume "q = p"
      then have "p dvd d" using q(2) ppos by simp
      with nd show False by simp
    qed
    then have "\<not> q dvd p" using is_prime_dvd_prime[OF p q(1)] by auto
    then have "coprime q p" using q(1) by (intro is_prime_coprime)
    then have "coprime (q * q) p" by simp
    then have "q * q dvd d" using q(2) by (simp add: coprime_dvd_mult_right_iff)
    with q(1) show "\<exists>q. is_prime q \<and> q * q dvd d" by auto
  next
    assume "\<exists>q. is_prime q \<and> q * q dvd d"
    then show "\<exists>q. is_prime q \<and> q * q dvd p * d" by (auto intro: dvd_mult)
  qed
  have set: "{q. is_prime q \<and> q dvd p * d} = insert p {q. is_prime q \<and> q dvd d}"
    using p is_prime_dvd_mult is_prime_dvd_prime[OF p] by auto
  have fin: "finite {q. is_prime q \<and> q dvd d}"
    using finite_divisors_set[OF d] by (rule rev_finite_subset) auto
  have "p \<notin> {q. is_prime q \<and> q dvd d}" using nd by simp
  then have card: "card {q. is_prime q \<and> q dvd p * d} = Suc (card {q. is_prime q \<and> q dvd d})"
    using fin by (simp add: set)
  show ?thesis
    using mobius_alt[OF pd] mobius_alt[OF d] sq card by simp
qed

lemma sum_mobius_divisors:
  assumes n: "0 < n"
  shows "(\<Sum>d | d dvd n. mobius d) = (if n = 1 then 1 else 0)"
proof (cases "n = 1")
  case True
  have "{d. d dvd Suc 0} = {Suc 0}" by auto
  then show ?thesis using True by (simp add: mobius_1)
next
  case False
  then have "1 < n" using n by simp
  then obtain p where p: "is_prime p" and pn: "p dvd n"
    using prime_divisor_exists by blast
  have ppos: "0 < p" using is_prime_gt_1[OF p] by simp
  let ?D = "{d. d dvd n}"
  let ?A = "{d. d dvd n \<and> \<not> p dvd d}"
  let ?B = "{d. d dvd n \<and> p dvd d \<and> \<not> p * p dvd d}"
  have fin: "finite ?D" using n by (rule finite_divisors_set)
  have finA: "finite ?A" using fin by (rule rev_finite_subset) auto
  have split: "?D = ?A \<union> (?D - ?A)" by auto
  have "(\<Sum>d\<in>?D. mobius d) = (\<Sum>d\<in>?A. mobius d) + (\<Sum>d\<in>?D - ?A. mobius d)"
    using fin finA by (subst split, subst sum.union_disjoint) auto
  also have "(\<Sum>d\<in>?D - ?A. mobius d) = (\<Sum>d\<in>?B. mobius d)"
  proof (rule sum.mono_neutral_right)
    show "finite (?D - ?A)" using fin by simp
    show "?B \<subseteq> ?D - ?A" by auto
    show "\<forall>i\<in>?D - ?A - ?B. mobius i = 0"
    proof
      fix e assume "e \<in> ?D - ?A - ?B"
      then have "e dvd n" "p * p dvd e" by auto
      moreover have "0 < e" using \<open>e dvd n\<close> n by (rule dvd_pos_nat[rotated])
      ultimately show "mobius e = 0" using p by (intro mobius_square[of p])
    qed
  qed
  also have "(\<Sum>d\<in>?B. mobius d) = (\<Sum>d\<in>?A. mobius (p * d))"
  proof (rule sum.reindex_bij_witness[of _ "\<lambda>d. p * d" "\<lambda>e. e div p"])
    fix e assume "e \<in> ?B"
    then have e: "e dvd n" "p dvd e" "\<not> p * p dvd e" by auto
    show "p * (e div p) = e" using e(2) by simp
    have "e div p dvd e" using e(2) by (rule div_divisor_dvd)
    then have "e div p dvd n" using e(1) by (rule dvd_trans)
    moreover have "\<not> p dvd e div p"
    proof
      assume "p dvd e div p"
      then have "p * p dvd p * (e div p)" by simp
      then show False using e(2,3) by simp
    qed
    ultimately show "e div p \<in> ?A" by simp
    show "mobius (p * (e div p)) = mobius e" using e(2) by simp
  next
    fix d assume "d \<in> ?A"
    then have d: "d dvd n" "\<not> p dvd d" by auto
    show "p * d div p = d" using ppos by simp
    have "coprime p d" using p d(2) by (rule is_prime_coprime)
    then have "p * d dvd n" using pn d(1) by (intro divides_mult)
    moreover have "\<not> p * p dvd p * d" using d(2) ppos by simp
    ultimately show "p * d \<in> ?B" by simp
  qed
  also have "(\<Sum>d\<in>?A. mobius d) + (\<Sum>d\<in>?A. mobius (p * d)) = (\<Sum>d\<in>?A. mobius d + mobius (p * d))"
    by (simp add: sum.distrib)
  also have "\<dots> = (\<Sum>d\<in>?A. 0)"
  proof (rule sum.cong[OF refl])
    fix d assume "d \<in> ?A"
    then have d: "d dvd n" "\<not> p dvd d" by auto
    have "0 < d" using d(1) n by (rule dvd_pos_nat[rotated])
    then show "mobius d + mobius (p * d) = 0" using mobius_prime_mult[OF p _ d(2)] by simp
  qed
  finally show ?thesis using False by simp
qed

lemma sum_mobius_multiples:
  fixes n e :: nat
  assumes n: "0 < n" and e: "e dvd n"
  shows "(\<Sum>d | d dvd n \<and> e dvd d. mobius (n div d)) = (if e = n then 1 else 0)"
proof -
  have epos: "0 < e" using e n by (rule dvd_pos_nat[rotated])
  obtain m where nm: "n = e * m" using e by (auto elim: dvdE)
  have m: "n div e = m" using nm epos by simp
  have mpos: "0 < n div e" using nm n m by (cases m) auto
  have ne: "n = e * (n div e)" using e by simp
  have "(\<Sum>d | d dvd n \<and> e dvd d. mobius (n div d)) = (\<Sum>k | k dvd n div e. mobius k)"
  proof (rule sum.reindex_bij_witness[of _ "\<lambda>k. n div k" "\<lambda>d. n div d"])
    fix d assume "d \<in> {d. d dvd n \<and> e dvd d}"
    then have d: "d dvd n" "e dvd d" by auto
    show "n div (n div d) = d" using n d(1) by (rule div_div_divisor)
    obtain c where c: "d = e * c" using d(2) by (auto elim: dvdE)
    obtain c' where c': "n = d * c'" using d(1) by (auto elim: dvdE)
    have dpos: "0 < d" using d(1) n by (rule dvd_pos_nat[rotated])
    have "n div d = c'" using c' dpos by simp
    moreover have "n div e = c * c'" using c c' epos by simp
    ultimately show "n div d \<in> {k. k dvd n div e}" by simp
    show "mobius (n div d) = mobius (n div d)" ..
  next
    fix k assume "k \<in> {k. k dvd n div e}"
    then have k: "k dvd n div e" by simp
    then obtain c where c: "n div e = k * c" by (auto elim: dvdE)
    have kpos: "0 < k" using k mpos by (rule dvd_pos_nat[rotated])
    have nk: "n = k * (e * c)" using ne c by (metis mult.left_commute)
    then have "n div k = e * c" using kpos by simp
    moreover have "k dvd n" using nk by (metis dvd_triv_left)
    moreover have "n div k dvd n" using \<open>k dvd n\<close> by (rule div_divisor_dvd)
    ultimately show "n div k \<in> {d. d dvd n \<and> e dvd d}"
      by simp
    show "n div (n div k) = k" using n \<open>k dvd n\<close> by (rule div_div_divisor)
  qed
  also have "\<dots> = (if n div e = 1 then 1 else 0)"
    by (rule sum_mobius_divisors[OF mpos])
  also have "\<dots> = (if e = n then 1 else 0)"
    using nm m epos by (cases "m = 1") auto
  finally show ?thesis .
qed

text \<open>
  Claim C5. For every arithmetic function \<open>f\<close> and every \<open>n \<ge> 1\<close>,
  \<open>mobius_inverse (divisor_sum f) n = f n\<close> (the Moebius inversion formula).
\<close>

theorem mobius_inverse_divisor_sum:
  fixes f :: "nat \<Rightarrow> 'a::comm_ring_1"
  assumes n1: "1 \<le> n"
  shows "mobius_inverse (divisor_sum f) n = f n"
proof -
  let ?D = "{d. d dvd n}"
  let ?mu = "\<lambda>k. of_int (mobius k) :: 'a"
  have n: "0 < n" using n1 by simp
  have fin: "finite ?D" using n by (rule finite_divisors_set)
  have "mobius_inverse (divisor_sum f) n = (\<Sum>d\<in>?D. divisor_sum f d * ?mu (n div d))"
    unfolding mobius_inverse_def by (rule convolution_sum[OF n])
  also have "\<dots> = (\<Sum>d\<in>?D. \<Sum>e\<in>{e\<in>?D. e dvd d}. f e * ?mu (n div d))"
  proof (rule sum.cong[OF refl])
    fix d assume "d \<in> ?D"
    then have d: "d dvd n" by simp
    have dpos: "0 < d" using d n by (rule dvd_pos_nat[rotated])
    have eq: "{e. e dvd d} = {e\<in>?D. e dvd d}" using d by (auto intro: dvd_trans)
    have "divisor_sum f d = (\<Sum>e | e dvd d. f e)"
      unfolding divisor_sum_def by (simp add: convolution_sum[OF dpos])
    then show "divisor_sum f d * ?mu (n div d) = (\<Sum>e\<in>{e\<in>?D. e dvd d}. f e * ?mu (n div d))"
      by (simp add: sum_distrib_right eq)
  qed
  also have "\<dots> = (\<Sum>e\<in>?D. \<Sum>d | d \<in> ?D \<and> e dvd d. f e * ?mu (n div d))"
    by (rule sum.swap_restrict[OF fin fin])
  also have "\<dots> = (\<Sum>e\<in>?D. f e * (if e = n then 1 else 0))"
  proof (rule sum.cong[OF refl])
    fix e assume "e \<in> ?D"
    then have e: "e dvd n" by simp
    have "(\<Sum>d | d \<in> ?D \<and> e dvd d. f e * ?mu (n div d))
          = f e * of_int (\<Sum>d | d dvd n \<and> e dvd d. mobius (n div d))"
      by (simp add: sum_distrib_left)
    also have "\<dots> = f e * (if e = n then 1 else 0)"
      by (simp add: sum_mobius_multiples[OF n e])
    finally show "(\<Sum>d | d \<in> ?D \<and> e dvd d. f e * ?mu (n div d)) = f e * (if e = n then 1 else 0)" .
  qed
  also have "\<dots> = (\<Sum>e\<in>?D. if e = n then f e else 0)"
    by (rule sum.cong) auto
  also have "\<dots> = f n"
    using fin by (simp add: sum.delta)
  finally show ?thesis .
qed

theorem mobius_inverse_divisor_sum_witness:
  "(1::nat) \<le> 6 \<and> mobius_inverse (divisor_sum (\<lambda>n. int n * int n)) 6 = 36"
  using mobius_inverse_divisor_sum[of 6 "\<lambda>n. int n * int n"] by simp

subsection \<open>The round trip through the Dirichlet inverse\<close>











section \<open>Properties of the Stern-Brocot search\<close>

subsection \<open>Termination and the depth of the recursion\<close>

lemma impl_fract_ceil_depth_agrees:
  assumes "0 < snd first" and "0 < snd last'"
    and "n - (snd first + snd last') + 2 \<le> int k" and "1 \<le> k"
  shows "\<exists>y. impl_fract_ceil first last' fract n = Some y \<and>
             impl_fract_ceil_depth k first last' fract n = Some y"
  using assms
proof (induction k arbitrary: first last')
  case 0
  then show ?case by simp
next
  case (Suc k)
  let ?mediant = "(fst first + fst last', snd first + snd last')"
  show ?case
  proof (cases "fract = first \<or> fract = last'")
    case True
    then show ?thesis by (subst impl_fract_ceil.simps) auto
  next
    case stop: False
    show ?thesis
    proof (cases "snd ?mediant > n")
      case True
      then show ?thesis using stop by (subst impl_fract_ceil.simps) (simp add: Let_def)
    next
      case False
      then have le: "snd first + snd last' \<le> n" by simp
      have k1: "1 \<le> k" using Suc.prems(3) le by linarith
      show ?thesis
      proof (cases "fract_comp fract ?mediant < 0")
        case True
        have "\<exists>y. impl_fract_ceil first ?mediant fract n = Some y \<and>
                 impl_fract_ceil_depth k first ?mediant fract n = Some y"
          using Suc.prems k1 by (intro Suc.IH) auto
        then show ?thesis using stop False True
          by (subst impl_fract_ceil.simps) (simp add: Let_def)
      next
        case right: False
        have "\<exists>y. impl_fract_ceil ?mediant last' fract n = Some y \<and>
                 impl_fract_ceil_depth k ?mediant last' fract n = Some y"
          using Suc.prems k1 by (intro Suc.IH) auto
        then show ?thesis using stop False right
          by (subst impl_fract_ceil.simps) (simp add: Let_def)
      qed
    qed
  qed
qed

text \<open>
  Claim C9. The recursive search returns on every input with \<open>n \<ge> 1\<close> and bounds with
  positive denominators: each recursive call replaces a bound by the mediant, whose
  denominator exceeds both bounds' denominators and is at most \<open>n\<close>, so the depth of
  the recursion is at most \<open>n\<close> (a stack of \<open>n\<close> frames gives the same result).
\<close>

theorem impl_fract_ceil_terminates:
  assumes "1 \<le> n" and "0 < snd first" and "0 < snd last'"
  shows "\<exists>y. impl_fract_ceil first last' fract n = Some y \<and>
             impl_fract_ceil_depth (nat n) first last' fract n = Some y"
  using assms by (intro impl_fract_ceil_depth_agrees) auto

theorem impl_fract_ceil_terminates_witness:
  "(1::int) \<le> 5 \<and> 0 < snd (0::int, 1::int) \<and> 0 < snd (1::int, 1::int) \<and>
   (\<exists>y. impl_fract_ceil (0, 1) (1, 1) (1, 100) 5 = Some y \<and>
        impl_fract_ceil_depth (nat 5) (0, 1) (1, 1) (1, 100) 5 = Some y)"
  using impl_fract_ceil_terminates[of 5 "(0, 1)" "(1, 1)" "(1, 100)"] by simp

subsection \<open>Neighbouring fractions\<close>

text \<open>
  Two fractions \<open>a/b < c/d\<close> with \<open>b * c - a * d = 1\<close> are both reduced, and every
  fraction strictly between them has a denominator of at least \<open>b + d\<close>.
\<close>

lemma det_coprime:
  fixes a b c d :: int
  assumes "b * c - a * d = 1"
  shows "coprime a b"
proof (rule coprimeI)
  fix e assume "e dvd a" "e dvd b"
  then have "e dvd b * c - a * d" by (intro dvd_diff dvd_mult2)
  then show "is_unit e" using assms by simp
qed

lemma reduced_unique:
  fixes a b p q :: int
  assumes "coprime a b" "coprime p q" "0 < b" "0 < q" "a * q = p * b"
  shows "p = a \<and> q = b"
proof -
  have "b dvd a * q" using assms(5) by simp
  then have "b dvd q" using assms(1) by (simp add: coprime_commute coprime_dvd_mult_right_iff)
  moreover have "q dvd p * b" using assms(5)[symmetric] by simp
  then have "q dvd b" using assms(2) by (simp add: coprime_commute coprime_dvd_mult_right_iff)
  ultimately have "q = b" using assms(3,4) by (intro zdvd_antisym_nonneg) auto
  then show ?thesis using assms(5,3) by simp
qed

lemma neighbour_gap:
  fixes a b c d u v :: int
  assumes det: "b * c - a * d = 1" and b: "0 < b" and d: "0 < d"
    and l: "a * v < u * b" and r: "u * d < c * v"
  shows "b + d \<le> v"
proof -
  have "v = v * (b * c - a * d)" using det by simp
  also have "\<dots> = b * (c * v - u * d) + d * (u * b - a * v)" by (simp add: algebra_simps)
  finally have v: "v = b * (c * v - u * d) + d * (u * b - a * v)" .
  have "b * 1 \<le> b * (c * v - u * d)" using b r by (intro mult_left_mono) auto
  moreover have "d * 1 \<le> d * (u * b - a * v)" using d l by (intro mult_left_mono) auto
  ultimately show ?thesis using v by linarith
qed

lemma det_coprime_right:
  fixes a b c d :: int
  assumes "b * c - a * d = 1"
  shows "coprime c d"
proof (rule coprimeI)
  fix e assume "e dvd c" "e dvd d"
  then have "e dvd b * c - a * d" by (intro dvd_diff dvd_mult)
  then show "is_unit e" using assms by simp
qed

lemma fract_less_le_trans:
  fixes a b p q u v :: int
  assumes "a * q < p * b" and "p * v \<le> u * q" and "0 < q" and "0 < v" and "0 < b"
  shows "a * v < u * b"
proof -
  have "(a * q) * v < (p * b) * v" using assms(1,4) by (simp add: mult_strict_right_mono)
  moreover have "(p * v) * b \<le> (u * q) * b" using assms(2,5) by (simp add: mult_right_mono)
  ultimately have "(a * v) * q < (u * b) * q" by (simp add: mult.commute mult.left_commute)
  then show ?thesis using assms(3) by (simp add: mult_less_cancel_right_pos)
qed

subsection \<open>The search returns the ceiling\<close>

text \<open>
  The bounds stay neighbours with denominators in \<open>1..n\<close> that enclose the target.
  Fractions are compared by cross-multiplication, all denominators being positive.
\<close>

lemma impl_fract_ceil_correct:
  fixes a b c d p q n :: int
  assumes "n - (b + d) + 2 \<le> int k" and "1 \<le> k"
    and "0 < b" and "0 < d" and "b \<le> n" and "d \<le> n"
    and "b * c - a * d = 1"
    and "coprime p q" and "0 < q"
    and "a * q \<le> p * b" and "p * d \<le> c * q"
  shows "\<exists>p' q'. impl_fract_ceil (a, b) (c, d) (p, q) n = Some (p', q') \<and>
           1 \<le> q' \<and> q' \<le> n \<and> coprime p' q' \<and> p * q' \<le> p' * q \<and>
           (\<forall>u v. 1 \<le> v \<and> v \<le> n \<and> p * v \<le> u * q \<longrightarrow> p' * v \<le> u * q')"
  using assms
proof (induction k arbitrary: a b c d)
  case 0
  then show ?case by simp
next
  case (Suc k)
  note det = \<open>b * c - a * d = 1\<close>
  note b = \<open>0 < b\<close> and d = \<open>0 < d\<close> and q = \<open>0 < q\<close>
  have cab: "coprime a b" using det by (rule det_coprime)
  have ccd: "coprime c d" using det by (rule det_coprime_right)
  show ?case
  proof (cases "(p, q) = (a, b) \<or> (p, q) = (c, d)")
    case True
    have res: "impl_fract_ceil (a, b) (c, d) (p, q) n = Some (p, q)"
      using True by (subst impl_fract_ceil.simps) auto
    have "q \<le> n" using True Suc.prems(5,6) by auto
    then show ?thesis
      using res q \<open>coprime p q\<close> by (auto simp: mult.commute)
  next
    case False
    have lo: "a * q < p * b"
    proof -
      have "a * q \<noteq> p * b"
        using reduced_unique[OF cab \<open>coprime p q\<close> b q] False by auto
      then show ?thesis using Suc.prems(10) by simp
    qed
    have hi: "p * d < c * q"
    proof -
      have "c * q \<noteq> p * d"
        using reduced_unique[OF ccd \<open>coprime p q\<close> d q] False by auto
      then show ?thesis using Suc.prems(11) by simp
    qed
    show ?thesis
    proof (cases "b + d > n")
      case True
      have res: "impl_fract_ceil (a, b) (c, d) (p, q) n = Some (c, d)"
        using False True by (subst impl_fract_ceil.simps) (auto simp: Let_def)
      have least: "c * v \<le> u * d" if v: "1 \<le> v" "v \<le> n" and ge: "p * v \<le> u * q" for u v
      proof (rule ccontr)
        assume "\<not> c * v \<le> u * d"
        then have r: "u * d < c * v" by simp
        have l: "a * v < u * b" using lo ge q v(1) b by (intro fract_less_le_trans[of a q p b v u]) auto
        have "b + d \<le> v" using det b d l r by (rule neighbour_gap)
        then show False using True v(2) by simp
      qed
      show ?thesis
        using res d \<open>d \<le> n\<close> ccd hi least by auto
    next
      case small: False
      then have le: "b + d \<le> n" by simp
      have k1: "1 \<le> k" using Suc.prems(1) le by linarith
      show ?thesis
      proof (cases "fract_comp (p, q) (a + c, b + d) < 0")
        case True
        then have hi': "p * (b + d) \<le> (a + c) * q"
          by (simp add: fract_comp_def mult.commute)
        have det': "b * (a + c) - a * (b + d) = 1" using det by (simp add: algebra_simps)
        have res: "impl_fract_ceil (a, b) (c, d) (p, q) n = impl_fract_ceil (a, b) (a + c, b + d) (p, q) n"
          using False small True by (subst impl_fract_ceil.simps) (auto simp: Let_def)
        have "\<exists>p' q'. impl_fract_ceil (a, b) (a + c, b + d) (p, q) n = Some (p', q') \<and>
           1 \<le> q' \<and> q' \<le> n \<and> coprime p' q' \<and> p * q' \<le> p' * q \<and>
           (\<forall>u v. 1 \<le> v \<and> v \<le> n \<and> p * v \<le> u * q \<longrightarrow> p' * v \<le> u * q')"
        proof (rule Suc.IH)
          show "n - (b + (b + d)) + 2 \<le> int k" using Suc.prems(1) b by linarith
          show "1 \<le> k" by (rule k1)
          show "0 < b" by (rule b)
          show "0 < b + d" using b d by simp
          show "b \<le> n" by (rule Suc.prems(5))
          show "b + d \<le> n" by (rule le)
          show "b * (a + c) - a * (b + d) = 1" by (rule det')
          show "coprime p q" by (rule Suc.prems(8))
          show "0 < q" by (rule q)
          show "a * q \<le> p * b" by (rule Suc.prems(10))
          show "p * (b + d) \<le> (a + c) * q" by (rule hi')
        qed
        then show ?thesis unfolding res .
      next
        case right: False
        then have lo': "(a + c) * q \<le> p * (b + d)"
          by (simp add: fract_comp_def mult.commute)
        have det': "(b + d) * c - (a + c) * d = 1" using det by (simp add: algebra_simps)
        have res: "impl_fract_ceil (a, b) (c, d) (p, q) n = impl_fract_ceil (a + c, b + d) (c, d) (p, q) n"
          using False small right by (subst impl_fract_ceil.simps) (auto simp: Let_def)
        have "\<exists>p' q'. impl_fract_ceil (a + c, b + d) (c, d) (p, q) n = Some (p', q') \<and>
           1 \<le> q' \<and> q' \<le> n \<and> coprime p' q' \<and> p * q' \<le> p' * q \<and>
           (\<forall>u v. 1 \<le> v \<and> v \<le> n \<and> p * v \<le> u * q \<longrightarrow> p' * v \<le> u * q')"
        proof (rule Suc.IH)
          show "n - (b + d + d) + 2 \<le> int k" using Suc.prems(1) d by linarith
          show "1 \<le> k" by (rule k1)
          show "0 < b + d" using b d by simp
          show "0 < d" by (rule d)
          show "b + d \<le> n" by (rule le)
          show "d \<le> n" by (rule Suc.prems(6))
          show "(b + d) * c - (a + c) * d = 1" by (rule det')
          show "coprime p q" by (rule Suc.prems(8))
          show "0 < q" by (rule q)
          show "(a + c) * q \<le> p * (b + d)" by (rule lo')
          show "p * d \<le> c * q" by (rule Suc.prems(11))
        qed
        then show ?thesis unfolding res .
      qed
    qed
  qed
qed

text \<open>
  Claim C3. For every reduced fraction \<open>p/q\<close> with \<open>0 \<le> p/q \<le> 1\<close> and every
  \<open>n \<ge> 1\<close>, the search started at the bounds \<open>0/1\<close> and \<open>1/1\<close> returns the least
  fraction \<open>p'/q'\<close> with \<open>p'/q' \<ge> p/q\<close> and denominator at most \<open>n\<close>: it is such a
  fraction (in lowest terms), and every fraction \<open>u/v\<close> with \<open>1 \<le> v \<le> n\<close> and
  \<open>u/v \<ge> p/q\<close> is at least \<open>p'/q'\<close>.
\<close>

theorem fract_ceil_least:
  fixes p q n :: int
  assumes "1 \<le> n" and "0 < q" and "coprime p q" and "0 \<le> p" and "p \<le> q"
  shows "\<exists>p' q'. impl_fract_ceil (0, 1) (1, 1) (p, q) n = Some (p', q') \<and>
           1 \<le> q' \<and> q' \<le> n \<and> coprime p' q' \<and> p * q' \<le> p' * q \<and>
           (\<forall>u v. 1 \<le> v \<and> v \<le> n \<and> p * v \<le> u * q \<longrightarrow> p' * v \<le> u * q')"
  using assms by (intro impl_fract_ceil_correct[where k = "nat n"]) auto

theorem fract_ceil_least_witness:
  "(1::int) \<le> 5 \<and> (0::int) < 7 \<and> coprime (3::int) 7 \<and> (0::int) \<le> 3 \<and> (3::int) \<le> 7 \<and>
   (\<exists>p' q'. impl_fract_ceil (0, 1) (1, 1) (3, 7) 5 = Some (p', q') \<and>
       1 \<le> q' \<and> q' \<le> 5 \<and> coprime p' q' \<and> 3 * q' \<le> p' * 7 \<and>
       (\<forall>u v. 1 \<le> v \<and> v \<le> 5 \<and> 3 * v \<le> u * 7 \<longrightarrow> p' * v \<le> u * q'))"
proof -
  have c: "coprime (3::int) 7" by (rule det_coprime[of 7 1 3 2]) simp
  show ?thesis using fract_ceil_least[of 5 7 3] c by simp
qed



section \<open>Properties of the Farey sequence generator\<close>

subsection \<open>The loop yields the Farey sequence\<close>

text \<open>
  With the default bounds and \<open>n \<ge> 1\<close> the first term is \<open>0/1\<close>, and
  \<open>extended_gcd 1 0\<close> gives \<open>x = 1\<close>, \<open>y = 0\<close>, so the second term is \<open>1/n\<close>.
\<close>

lemma farey_start:
  assumes "1 \<le> n"
  shows "farey n (0, 1) (1, 1) = farey_loop n (1, 1) 0 1 1 n []"
proof -
  have e: "extended_gcd 1 0 = Inr (Euclidean 1 1 0)" by (simp add: extended_gcd_def)
  have f0: "Fraction 0 1 = Inr (0, 1)" and f1: "Fraction 1 1 = Inr (1, 1)"
    by (simp_all add: Fraction_def)
  show ?thesis using assms by (simp add: farey_def e f0 f1 py_floordiv_def)
qed

lemma finite_farey_set:
  "finite {(p, q). 1 \<le> q \<and> q \<le> n \<and> 0 \<le> p \<and> p \<le> q \<and> coprime p (q::int)}"
proof (rule finite_subset)
  show "{(p, q). 1 \<le> q \<and> q \<le> n \<and> 0 \<le> p \<and> p \<le> q \<and> coprime p q} \<subseteq> {0..n} \<times> {1..n}"
    by auto
  show "finite ({0..n} \<times> {1..n})" by simp
qed

lemma fract_le_less_trans:
  fixes a b c d p q :: int
  assumes "a * d < c * b" and "c * q \<le> p * d" and "0 < b" and "0 < d" and "0 < q"
  shows "a * q < p * b"
proof -
  have "(a * d) * q < (c * b) * q" using assms(1,5) by (simp add: mult_strict_right_mono)
  moreover have "(c * q) * b \<le> (p * d) * b" using assms(2,3) by (simp add: mult_right_mono)
  ultimately have "(a * q) * d < (p * b) * d" by (simp add: mult.commute mult.left_commute)
  then show ?thesis using assms(4) by (simp add: mult_less_cancel_right_pos)
qed

text \<open>
  One step of the recurrence: the new denominator \<open>r * d - b\<close> lies in \<open>1..n\<close> and is
  more than \<open>n - d\<close>; and the successor of a fraction below one is at most one.
\<close>

lemma farey_next_bounds:
  fixes n b d :: int
  assumes "0 < d" and "d \<le> n" and "0 < b"
  defines "r \<equiv> (n + b) div d"
  shows "0 < r * d - b" and "r * d - b \<le> n" and "n < d + (r * d - b)"
proof -
  have eq: "r * d + (n + b) mod d = n + b" unfolding r_def by simp
  have m0: "0 \<le> (n + b) mod d" and m1: "(n + b) mod d < d"
    using assms(1) by simp_all
  show "r * d - b \<le> n" using eq m0 by linarith
  show "n < d + (r * d - b)" using eq m1 by linarith
  then show "0 < r * d - b" using assms(2) by linarith
qed

lemma farey_next_le_one:
  fixes a b c d :: int
  assumes det: "b * c - a * d = 1" and "0 < b" and "0 < d" and "0 \<le> a" and "a < b"
  shows "0 \<le> c" and "c \<le> d"
proof -
  have bc: "b * c = 1 + a * d" using det by simp
  have "0 \<le> a * d" using assms(3,4) by simp
  then have "0 < b * c" using bc by simp
  then show "0 \<le> c" using assms(2) by (simp add: zero_less_mult_iff)
  have "a * d \<le> (b - 1) * d" using assms(3,5) by (intro mult_right_mono) auto
  then have "b * c \<le> b * d - d + 1" using bc by (simp add: algebra_simps)
  then have "b * c \<le> b * d" using assms(3) by linarith
  then show "c \<le> d" using assms(2) by simp
qed

lemma coprime_self_pos:
  fixes b :: int
  assumes "coprime b b" and "0 < b"
  shows "b = 1"
  using assms by simp

text \<open>
  The loop, started at two neighbours \<open>a/b < c/d\<close> with \<open>b + d > n\<close>, ends normally and
  yields, in increasing order, exactly the reduced fractions in \<open>[a/b, 1]\<close> with a
  denominator of at most \<open>n\<close>. The induction is on the number of such fractions above
  \<open>a/b\<close>, which also bounds the number of iterations.
\<close>

lemma farey_loop_correct:
  fixes n a b c d :: int
  assumes "card {(p, q). (1 \<le> q \<and> q \<le> n \<and> 0 \<le> p \<and> p \<le> q \<and> coprime p q) \<and> a * q < p * b} = m"
    and "0 < b" and "b \<le> n" and "0 < d" and "d \<le> n" and "n < b + d"
    and "b * c - a * d = 1" and "0 \<le> a" and "a \<le> b"
  shows "\<exists>zs. farey_loop n (1, 1) a b c d ys = Some (ys @ zs, None) \<and>
           sorted_wrt (\<lambda>r s. fract_comp r s < 0) zs \<and>
           set zs = {(p, q). (1 \<le> q \<and> q \<le> n \<and> 0 \<le> p \<and> p \<le> q \<and> coprime p q) \<and> a * q \<le> p * b}"
  using assms
proof (induction m arbitrary: a b c d ys rule: less_induct)
  case (less m)
  let ?F = "\<lambda>p q. 1 \<le> q \<and> q \<le> n \<and> 0 \<le> p \<and> p \<le> q \<and> coprime p q"
  note b = \<open>0 < b\<close> and d = \<open>0 < d\<close> and det = \<open>b * c - a * d = 1\<close>
  have cab: "coprime a b" using det by (rule det_coprime)
  have ccd: "coprime c d" using det by (rule det_coprime_right)
  have Fab: "?F a b" using less.prems cab by auto
  show ?case
  proof (cases "a < b")
    case False
    then have "a = b" using \<open>a \<le> b\<close> by simp
    then have ab1: "a = 1" "b = 1" using cab b by simp_all
    have res: "farey_loop n (1, 1) a b c d ys = Some (ys @ [(1, 1)], None)"
      using ab1 by (subst farey_loop.simps) (simp add: fract_comp_def)
    have set: "{(p, q). ?F p q \<and> a * q \<le> p * b} = {(1, 1)}"
    proof (rule set_eqI)
      fix x :: "int \<times> int"
      obtain p q where x: "x = (p, q)" by (cases x)
      have "?F p q \<and> q \<le> p \<longleftrightarrow> p = 1 \<and> q = 1"
      proof
        assume h: "?F p q \<and> q \<le> p"
        then have pq: "p = q" by simp
        have "coprime q q" using h unfolding pq by simp
        moreover have "0 < q" using h by simp
        ultimately have "q = 1" by (rule coprime_self_pos)
        then show "p = 1 \<and> q = 1" using pq by simp
      next
        assume "p = 1 \<and> q = 1"
        then show "?F p q \<and> q \<le> p" using less.prems(2,3) ab1 by simp
      qed
      then show "x \<in> {(p, q). ?F p q \<and> a * q \<le> p * b} \<longleftrightarrow> x \<in> {(1, 1)}"
        using x ab1 by simp
    qed
    have "set [(1::int, 1::int)] = {(p, q). ?F p q \<and> a * q \<le> p * b}"
      unfolding set by simp
    then show ?thesis using res by (intro exI[of _ "[(1, 1)]"]) simp
  next
    case True
    define r where "r = (n + b) div d"
    define c' where "c' = r * c - a"
    define d' where "d' = r * d - b"
    have res: "farey_loop n (1, 1) a b c d ys = farey_loop n (1, 1) c d c' d' (ys @ [(a, b)])"
      using True d
      by (subst farey_loop.simps) (simp add: fract_comp_def py_floordiv_def r_def c'_def d'_def)
    have d'pos: "0 < d'" and d'n: "d' \<le> n" and sum': "n < d + d'"
      using farey_next_bounds[OF d \<open>d \<le> n\<close> b] unfolding d'_def r_def by simp_all
    have det': "d * c' - c * d' = 1"
      using det unfolding c'_def d'_def by (simp add: algebra_simps)
    have c0: "0 \<le> c" and cd: "c \<le> d"
      using farey_next_le_one[OF det b d \<open>0 \<le> a\<close> True] by simp_all
    have Fcd: "?F c d" using d \<open>d \<le> n\<close> c0 cd ccd by simp
    have lt: "a * d < c * b" using det by (simp add: mult.commute)
    let ?above = "\<lambda>a b. {(p, q). ?F p q \<and> a * q < p * b}"
    have fin: "finite (?above a b)"
      by (rule finite_subset[OF _ finite_farey_set[of n]]) auto
    have sub: "?above c d \<subseteq> ?above a b"
    proof
      fix x assume "x \<in> ?above c d"
      then obtain p q where x: "x = (p, q)" and F: "?F p q" and gt: "c * q < p * d" by auto
      have "a * q < p * b" using lt _ b d by (rule fract_le_less_trans) (use gt F in auto)
      then show "x \<in> ?above a b" using x F by simp
    qed
    have "(c, d) \<in> ?above a b" using Fcd lt by simp
    moreover have "(c, d) \<notin> ?above c d" by simp
    ultimately have "?above c d \<subset> ?above a b" using sub by blast
    then have "card (?above c d) < card (?above a b)" using fin by (intro psubset_card_mono)
    then have less_m: "card (?above c d) < m" using less.prems(1) by simp
    have "\<exists>zs. farey_loop n (1, 1) c d c' d' (ys @ [(a, b)]) = Some ((ys @ [(a, b)]) @ zs, None) \<and>
           sorted_wrt (\<lambda>r s. fract_comp r s < 0) zs \<and>
           set zs = {(p, q). ?F p q \<and> c * q \<le> p * d}"
      by (rule less.IH[OF less_m refl d \<open>d \<le> n\<close> d'pos d'n sum' det' c0 cd])
    then obtain zs where zs: "farey_loop n (1, 1) c d c' d' (ys @ [(a, b)]) = Some ((ys @ [(a, b)]) @ zs, None)"
      and sorted: "sorted_wrt (\<lambda>r s. fract_comp r s < 0) zs"
      and set: "set zs = {(p, q). ?F p q \<and> c * q \<le> p * d}" by blast
    have first: "fract_comp (a, b) s < 0" if mem: "s \<in> set zs" for s
    proof -
      obtain p q where s: "s = (p, q)" and F: "?F p q" and ge: "c * q \<le> p * d"
        using mem set by auto
      have "a * q < p * b" using lt ge b d by (rule fract_le_less_trans) (use F in auto)
      then show ?thesis using s by (simp add: fract_comp_def mult.commute)
    qed
    have set': "{(p, q). ?F p q \<and> a * q \<le> p * b} = insert (a, b) (set zs)"
    proof (rule set_eqI)
      fix x :: "int \<times> int"
      obtain p q where x: "x = (p, q)" by (cases x)
      have "?F p q \<and> a * q \<le> p * b \<longleftrightarrow> (p = a \<and> q = b) \<or> (?F p q \<and> c * q \<le> p * d)"
      proof
        assume h: "?F p q \<and> a * q \<le> p * b"
        show "(p = a \<and> q = b) \<or> (?F p q \<and> c * q \<le> p * d)"
        proof (cases "a * q = p * b")
          case True
          have "p = a \<and> q = b" using cab _ b _ True by (rule reduced_unique) (use h in auto)
          then show ?thesis by simp
        next
          case False
          then have l: "a * q < p * b" using h by simp
          have "c * q \<le> p * d"
          proof (rule ccontr)
            assume "\<not> c * q \<le> p * d"
            then have "p * d < c * q" by simp
            with det b d l have "b + d \<le> q" by (rule neighbour_gap)
            then show False using h \<open>n < b + d\<close> by simp
          qed
          then show ?thesis using h by simp
        qed
      next
        assume "(p = a \<and> q = b) \<or> (?F p q \<and> c * q \<le> p * d)"
        then show "?F p q \<and> a * q \<le> p * b"
        proof
          assume "p = a \<and> q = b"
          then show ?thesis using Fab by simp
        next
          assume h: "?F p q \<and> c * q \<le> p * d"
          have "a * q < p * b" using lt _ b d by (rule fract_le_less_trans) (use h in auto)
          then show ?thesis using h by simp
        qed
      qed
      then show "x \<in> {(p, q). ?F p q \<and> a * q \<le> p * b} \<longleftrightarrow> x \<in> insert (a, b) (set zs)"
        using x set by auto
    qed
    have "farey_loop n (1, 1) a b c d ys = Some (ys @ ((a, b) # zs), None)"
      using res zs by simp
    moreover have "sorted_wrt (\<lambda>r s. fract_comp r s < 0) ((a, b) # zs)"
      using sorted first by simp
    moreover have "set ((a, b) # zs) = {(p, q). ?F p q \<and> a * q \<le> p * b}"
      using set' by simp
    ultimately show ?thesis by blast
  qed
qed

subsection \<open>The number of terms\<close>

lemma card_farey_slice:
  assumes "1 \<le> k"
  shows "card {p::int. 0 \<le> p \<and> p \<le> int k \<and> coprime p (int k)}
           = totient k + (if k = 1 then 1 else 0)"
proof -
  let ?T = "{j. 1 \<le> j \<and> j \<le> k \<and> gcd k j = 1}"
  let ?Z = "if k = 1 then {0::int} else {}"
  have eq: "{p::int. 0 \<le> p \<and> p \<le> int k \<and> coprime p (int k)} = int ` ?T \<union> ?Z"
  proof (rule set_eqI)
    fix p :: int
    show "p \<in> {p. 0 \<le> p \<and> p \<le> int k \<and> coprime p (int k)} \<longleftrightarrow> p \<in> int ` ?T \<union> ?Z"
    proof (cases "p = 0")
      case True
      have "0 \<notin> int ` ?T" by auto
      moreover have "coprime (0::int) (int k) \<longleftrightarrow> k = 1" by simp
      ultimately show ?thesis using True by auto
    next
      case False
      show ?thesis
      proof
        assume "p \<in> {p. 0 \<le> p \<and> p \<le> int k \<and> coprime p (int k)}"
        then have p: "0 < p" "p \<le> int k" "coprime p (int k)" using False by auto
        have "coprime (int (nat p)) (int k)" using p(1,3) by simp
        then have "coprime (nat p) k" by (simp only: coprime_int_iff)
        then have "gcd k (nat p) = 1" by (simp add: coprime_iff_gcd_eq_1 gcd.commute)
        then have "nat p \<in> ?T" using p(1,2) by auto
        then have "int (nat p) \<in> int ` ?T" by (rule imageI)
        then show "p \<in> int ` ?T \<union> ?Z" using p(1) by simp
      next
        assume "p \<in> int ` ?T \<union> ?Z"
        then have "p \<in> int ` ?T" using False by (auto split: if_splits)
        then obtain j where j: "p = int j" "1 \<le> j" "j \<le> k" "gcd k j = 1" by auto
        have "coprime j k" using j(4) by (simp add: coprime_iff_gcd_eq_1 gcd.commute)
        then have "coprime (int j) (int k)" by (simp only: coprime_int_iff)
        then show "p \<in> {p. 0 \<le> p \<and> p \<le> int k \<and> coprime p (int k)}" using j by simp
      qed
    qed
  qed
  have finT: "finite ?T" by simp
  have "card (int ` ?T \<union> ?Z) = card (int ` ?T) + card ?Z"
    using finT by (intro card_Un_disjoint) auto
  also have "card (int ` ?T) = card ?T" by (intro card_image) simp
  also have "card ?T = totient k" by (simp add: totient_card)
  finally show ?thesis unfolding eq by simp
qed

lemma card_farey_set:
  "card {(p, q). 1 \<le> q \<and> q \<le> int m \<and> 0 \<le> p \<and> p \<le> q \<and> coprime p q}
     = (\<Sum>k = 1..m. totient k) + (if m = 0 then 0 else 1)"
proof (induction m)
  case 0
  have "card {(p, q). 1 \<le> q \<and> q \<le> int 0 \<and> 0 \<le> p \<and> p \<le> q \<and> coprime p q}
          = card ({} :: (int \<times> int) set)"
    by (rule arg_cong[of _ _ card]) auto
  also have "\<dots> = (\<Sum>k = 1..0. totient k) + (if (0::nat) = 0 then 0 else 1)" by simp
  finally show ?case .
next
  case (Suc m)
  let ?F = "\<lambda>m. {(p, q). 1 \<le> q \<and> q \<le> int m \<and> 0 \<le> p \<and> p \<le> q \<and> coprime p q}"
  let ?S = "{p::int. 0 \<le> p \<and> p \<le> int (Suc m) \<and> coprime p (int (Suc m))}"
  let ?new = "(\<lambda>p. (p, int (Suc m))) ` ?S"
  have split: "?F (Suc m) = ?F m \<union> ?new"
  proof (rule set_eqI)
    fix x :: "int \<times> int"
    obtain p q where x: "x = (p, q)" by (cases x)
    have "q \<le> int (Suc m) \<longleftrightarrow> q \<le> int m \<or> q = int (Suc m)" by auto
    then show "x \<in> ?F (Suc m) \<longleftrightarrow> x \<in> ?F m \<union> ?new" using x by auto
  qed
  have finF: "finite (?F m)" by (rule finite_farey_set)
  have finS: "finite ?S" by (rule finite_subset[of _ "{0..int (Suc m)}"]) auto
  have disj: "?F m \<inter> ?new = {}" by auto
  have "card (?F (Suc m)) = card (?F m) + card ?new"
    unfolding split using finF finS disj by (intro card_Un_disjoint) auto
  also have "card ?new = card ?S" by (intro card_image) (simp add: inj_on_def)
  also have "card ?S = totient (Suc m) + (if Suc m = 1 then 1 else 0)"
    by (rule card_farey_slice) simp
  finally show ?case using Suc.IH by (cases m) simp_all
qed

lemma sorted_wrt_irrefl_distinct:
  assumes "sorted_wrt R xs" and "\<And>x. \<not> R x x"
  shows "distinct xs"
  using assms by (induction xs) auto

lemma fract_comp_rat:
  assumes "0 < snd r" and "0 < snd s"
  shows "fract_comp r s < 0 \<longleftrightarrow> Fract (fst r) (snd r) < Fract (fst s) (snd s)"
proof -
  have pos: "0 < snd r * snd s" using assms by simp
  have "Fract (fst r) (snd r) < Fract (fst s) (snd s)
          \<longleftrightarrow> (fst r * snd s) * (snd r * snd s) < (fst s * snd r) * (snd r * snd s)"
    using assms by (simp add: less_rat)
  also have "\<dots> \<longleftrightarrow> fst r * snd s < fst s * snd r"
    using pos by (simp only: mult_less_cancel_right_pos)
  also have "\<dots> \<longleftrightarrow> fract_comp r s < 0"
    by (simp add: fract_comp_def mult.commute)
  finally show ?thesis by simp
qed

text \<open>
  Claim C2. For every \<open>n \<ge> 1\<close>, \<open>farey n\<close> with the default bounds \<open>(0, 1)\<close> and
  \<open>(1, 1)\<close> ends normally after yielding exactly \<open>\<phi>(1) + \<dots> + \<phi>(n) + 1\<close> pairs; the
  pairs are strictly increasing as fractions, and every pair \<open>(p, q)\<close> has
  \<open>1 \<le> q \<le> n\<close> and \<open>gcd p q = 1\<close>.
\<close>

theorem farey_default_sequence:
  assumes "1 \<le> n"
  shows "\<exists>xs. farey n (0, 1) (1, 1) = Some (xs, None) \<and>
           length xs = (\<Sum>k = 1..nat n. totient k) + 1 \<and>
           sorted_wrt (<) (map (\<lambda>(p, q). Fract p q) xs) \<and>
           (\<forall>(p, q) \<in> set xs. 1 \<le> q \<and> q \<le> n \<and> gcd p q = 1)"
proof -
  let ?F = "{(p, q). (1 \<le> q \<and> q \<le> n \<and> 0 \<le> p \<and> p \<le> q \<and> coprime p q) \<and> 0 * q \<le> p * 1}"
  have "\<exists>zs. farey_loop n (1, 1) 0 1 1 n [] = Some ([] @ zs, None) \<and>
           sorted_wrt (\<lambda>r s. fract_comp r s < 0) zs \<and> set zs = ?F"
    using assms by (intro farey_loop_correct[OF refl]) auto
  then obtain xs where res: "farey_loop n (1, 1) 0 1 1 n [] = Some (xs, None)"
    and sorted: "sorted_wrt (\<lambda>r s. fract_comp r s < 0) xs"
    and set: "set xs = ?F" by auto
  have F: "?F = {(p, q). 1 \<le> q \<and> q \<le> int (nat n) \<and> 0 \<le> p \<and> p \<le> q \<and> coprime p q}"
    using assms by auto
  have "distinct xs"
    using sorted by (rule sorted_wrt_irrefl_distinct) (simp add: fract_comp_def)
  then have "length xs = card (set xs)" by (simp add: distinct_card)
  also have "\<dots> = (\<Sum>k = 1..nat n. totient k) + 1"
    unfolding set F card_farey_set using assms by simp
  finally have len: "length xs = (\<Sum>k = 1..nat n. totient k) + 1" .
  have mem: "\<forall>(p, q) \<in> set xs. 1 \<le> q \<and> q \<le> n \<and> gcd p q = 1"
    unfolding set by (auto simp: coprime_iff_gcd_eq_1)
  have "sorted_wrt (\<lambda>r s. Fract (fst r) (snd r) < Fract (fst s) (snd s)) xs"
  proof (rule sorted_wrt_mono_rel[OF _ sorted])
    fix r s assume "r \<in> set xs" "s \<in> set xs" "fract_comp r s < 0"
    moreover have "0 < snd r" "0 < snd s" using \<open>r \<in> set xs\<close> \<open>s \<in> set xs\<close> unfolding set by auto
    ultimately show "Fract (fst r) (snd r) < Fract (fst s) (snd s)"
      by (simp add: fract_comp_rat)
  qed
  then have inc: "sorted_wrt (<) (map (\<lambda>(p, q). Fract p q) xs)"
    by (simp add: sorted_wrt_map case_prod_beta)
  show ?thesis
    using farey_start[OF assms] res len inc mem by auto
qed

theorem farey_default_sequence_witness:
  "(1::int) \<le> 5 \<and>
   (\<exists>xs. farey 5 (0, 1) (1, 1) = Some (xs, None) \<and>
       length xs = (\<Sum>k = 1..nat 5. totient k) + 1 \<and>
       sorted_wrt (<) (map (\<lambda>(p, q). Fract p q) xs) \<and>
       (\<forall>(p, q) \<in> set xs. 1 \<le> q \<and> q \<le> 5 \<and> gcd p q = 1))"
  using farey_default_sequence[of 5] by simp

end
